theory Spec2Isabelle
  imports Main "HOL-Library.Multiset"
begin

section \<open>The FLAMES game of \<^verbatim>\<open>app.py\<close>\<close>

text \<open>
  The program reads two names, keeps their letters, crosses out the letters the names
  have in common, counts what is left, and counts that number round the word FLAMES,
  striking one letter each round, until one letter is left.

  A Python \<^verbatim>\<open>str\<close> is a sequence of Unicode code points. The names typed into the
  form are arbitrary such strings, and are lists of code points, each a \<^typ>\<open>nat\<close>. The
  texts the program itself fixes (the word FLAMES, the titles, the time stamp) are ASCII
  and are of type \<^typ>\<open>string\<close>. Counts are Python integers, that is \<^typ>\<open>int\<close>;
  indices into lists are \<^typ>\<open>nat\<close>.
\<close>

subsection \<open>Characters: \<^verbatim>\<open>str.isalpha\<close>, \<^verbatim>\<open>str.lower\<close>, \<^verbatim>\<open>str.strip\<close>\<close>

text \<open>The Python string with the characters of an ASCII or Latin-1 literal.\<close>

definition py_str :: "string \<Rightarrow> nat list" where
  "py_str s = map of_char s"

definition below_256 :: "nat list \<Rightarrow> bool" where
  "below_256 name = list_all (\<lambda>c. c < 256) name"

text \<open>
  \<^verbatim>\<open>str.isalpha\<close> and \<^verbatim>\<open>str.lower\<close> are built into Python and follow the Unicode
  character database, which is not part of the program. Below code point 256 (ASCII and
  the Latin-1 supplement) the model writes them out. Beyond, they are parameters of the
  model: \<open>isalpha_beyond\<close> is \<^verbatim>\<open>isalpha\<close> on the code points from 256 on, and
  \<open>lower_beyond\<close> is \<^verbatim>\<open>lower\<close> on the strings that have such a code point. Nothing is
  assumed of them: \<^verbatim>\<open>lower\<close> may change the length of such a string (U+0130 becomes
  two code points) and may depend on the neighbours of a character (the final sigma).
\<close>

record unicode_tables =
  isalpha_beyond :: "nat \<Rightarrow> bool"
  lower_beyond :: "nat list \<Rightarrow> nat list"

text \<open>
  \<^verbatim>\<open>ch.isalpha()\<close> holds for the code points of the Unicode letter categories. Below
  256 these are A-Z, a-z, the ordinal indicators 170 and 186, the micro sign 181 and the
  accented letters 192-255 without the multiplication sign 215 and the division sign 247.
\<close>

definition isalpha :: "unicode_tables \<Rightarrow> nat \<Rightarrow> bool" where
  "isalpha T c =
     (if c < 256 then
        (65 \<le> c \<and> c \<le> 90) \<or> (97 \<le> c \<and> c \<le> 122) \<or>
        c = 170 \<or> c = 181 \<or> c = 186 \<or>
        (192 \<le> c \<and> c \<le> 214) \<or> (216 \<le> c \<and> c \<le> 246) \<or> (248 \<le> c \<and> c \<le> 255)
      else isalpha_beyond T c)"

text \<open>
  \<^verbatim>\<open>name.lower()\<close> on a string whose code points are all below 256 lowercases each
  character by itself: the uppercase letters are A-Z and 192-222 without 215, each has its
  lowercase form 32 places further on, and every other code point is left as it is.
\<close>

definition lower_char :: "nat \<Rightarrow> nat" where
  "lower_char c =
     (if (65 \<le> c \<and> c \<le> 90) \<or> (192 \<le> c \<and> c \<le> 214) \<or> (216 \<le> c \<and> c \<le> 222)
      then c + 32 else c)"

definition lower :: "unicode_tables \<Rightarrow> nat list \<Rightarrow> nat list" where
  "lower T name = (if below_256 name then map lower_char name else lower_beyond T name)"

text \<open>
  \<^verbatim>\<open>name.strip()\<close> removes leading and trailing whitespace. The whitespace of Python
  strings is the code points 9-13, 28-32, 133, 160, 5760, 8192-8202, 8232, 8233, 8239,
  8287 and 12288.
\<close>

definition isspace :: "nat \<Rightarrow> bool" where
  "isspace c \<longleftrightarrow>
     (if c < 256 then
        (9 \<le> c \<and> c \<le> 13) \<or> (28 \<le> c \<and> c \<le> 32) \<or> c = 133 \<or> c = 160
      else
        c = 5760 \<or> (8192 \<le> c \<and> c \<le> 8202) \<or> c = 8232 \<or> c = 8233 \<or> c = 8239 \<or>
        c = 8287 \<or> c = 12288)"

definition strip :: "nat list \<Rightarrow> nat list" where
  "strip name = rev (dropWhile isspace (rev (dropWhile isspace name)))"

text \<open>
  The examples of this theory are names over code points below 256, on which the two
  tables are never consulted. To state them as closed facts they are given these tables,
  which stand for no particular version of the character database.
\<close>

definition no_tables :: unicode_tables where
  "no_tables = \<lparr>isalpha_beyond = (\<lambda>c. False), lower_beyond = (\<lambda>name. name)\<rparr>"

subsection \<open>\<^verbatim>\<open>sanitize\<close>\<close>

text \<open>
  \<^verbatim>\<open>return "".join([ch for ch in name.lower() if ch.isalpha()])\<close>
\<close>

definition sanitize :: "unicode_tables \<Rightarrow> nat list \<Rightarrow> nat list" where
  "sanitize T name = filter (isalpha T) (lower T name)"

subsection \<open>\<^verbatim>\<open>find_common_pairs\<close>\<close>

text \<open>
  The function keeps two lists of flags, one per letter of each name, and the list of the
  pairs found so far. The inner loop runs over \<^verbatim>\<open>enumerate(b_chars)\<close> and stops at the
  first position \<open>j\<close> whose flag is not set and whose letter is the letter looked for;
  \<open>None\<close> is the loop running to its end without a \<^verbatim>\<open>break\<close>.
\<close>

record fcp_state =
  removed_a :: "bool list"
  removed_b :: "bool list"
  pairs :: "(nat \<times> nat) list"

fun first_available :: "'a \<Rightarrow> (nat \<times> 'a) list \<Rightarrow> bool list \<Rightarrow> nat option" where
  "first_available ch [] rb = None"
| "first_available ch ((j, ch2) # rest) rb =
     (if \<not> rb ! j \<and> ch = ch2 then Some j else first_available ch rest rb)"

text \<open>One round of the outer loop, for the letter \<open>ch\<close> at position \<open>i\<close> of the first name.\<close>

definition pair_step :: "'a list \<Rightarrow> nat \<times> 'a \<Rightarrow> fcp_state \<Rightarrow> fcp_state" where
  "pair_step b_chars ich st =
     (case first_available (snd ich) (enumerate 0 b_chars) (removed_b st) of
        None \<Rightarrow> st
      | Some j \<Rightarrow>
          st\<lparr>removed_a := (removed_a st)[fst ich := True],
             removed_b := (removed_b st)[j := True],
             pairs := pairs st @ [(fst ich, j)]\<rparr>)"

definition fcp_init :: "'a list \<Rightarrow> 'a list \<Rightarrow> fcp_state" where
  "fcp_init a_chars b_chars =
     \<lparr>removed_a = replicate (length a_chars) False,
      removed_b = replicate (length b_chars) False,
      pairs = []\<rparr>"

definition find_common_pairs ::
  "'a list \<Rightarrow> 'a list \<Rightarrow> (nat \<times> nat) list \<times> bool list \<times> bool list" where
  "find_common_pairs a_chars b_chars =
     (let st = fold (pair_step b_chars) (enumerate 0 a_chars) (fcp_init a_chars b_chars)
      in (pairs st, removed_a st, removed_b st))"

subsection \<open>The crossing-out animation and the count of remaining letters\<close>

text \<open>
  The caller walks through the pairs and sets both flags of each pair again
  (\<^verbatim>\<open>removed_a[i] = True; removed_b[j] = True\<close>), then counts the flags that are not
  set: \<^verbatim>\<open>sum(1 for x in removed_a if not x) + sum(1 for x in removed_b if not x)\<close>.
  An assignment to a Python list at an index out of range raises; the indices of the
  pairs are in range (lemma \<open>pairs_in_range\<close> below), so the model's update, which
  does nothing out of range, is the program's.
\<close>

definition animate_crosses ::
  "(nat \<times> nat) list \<Rightarrow> bool list \<times> bool list \<Rightarrow> bool list \<times> bool list" where
  "animate_crosses ps flags =
     fold (\<lambda>ij ab. ((fst ab)[fst ij := True], (snd ab)[snd ij := True])) ps flags"

definition count_unset :: "bool list \<Rightarrow> int" where
  "count_unset flags = int (length (filter (\<lambda>x. \<not> x) flags))"

definition remaining :: "'a list \<Rightarrow> 'a list \<Rightarrow> int" where
  "remaining a_chars b_chars =
     (case find_common_pairs a_chars b_chars of
        (ps, ra, rb) \<Rightarrow>
          (case animate_crosses ps (ra, rb) of
             (ra', rb') \<Rightarrow> count_unset ra' + count_unset rb'))"

subsection \<open>\<^verbatim>\<open>eliminate_flames_animation\<close>\<close>

datatype py_error = IndexError

text \<open>\<^verbatim>\<open>flames.pop(index)\<close> for an index that is not negative: it raises out of range.\<close>

definition pop :: "'a list \<Rightarrow> nat \<Rightarrow> py_error + ('a \<times> 'a list)" where
  "pop xs i =
     (if i < length xs then Inr (xs ! i, take i xs @ drop (Suc i) xs) else Inl IndexError)"

text \<open>
  \<^verbatim>\<open>index = (count - 1) % n\<close>. Python's \<^verbatim>\<open>%\<close> with a positive right operand gives a
  result from \<open>0\<close> to \<open>n - 1\<close>, as \<open>mod\<close> on \<^typ>\<open>int\<close> does, so the index is a natural
  number.
\<close>

definition removal_index :: "int \<Rightarrow> 'a list \<Rightarrow> nat" where
  "removal_index cnt flames = nat ((cnt - 1) mod int (length flames))"

text \<open>
  The \<^verbatim>\<open>while len(flames) > 1\<close> loop. The counting animation inside it is a
  \<^verbatim>\<open>for\<close> loop over \<^verbatim>\<open>range(1, count + 1)\<close>, which ends after \<open>count\<close> rounds (none
  when the count is below 1); it only writes to the two placeholders and sleeps, changes
  neither \<^verbatim>\<open>flames\<close> nor \<^verbatim>\<open>steps\<close>, and is left out. The rotation is
  \<^verbatim>\<open>flames[index:] + flames[:index]\<close>, taken on the list after the removal.
\<close>

function elim_loop :: "int \<Rightarrow> 'a list \<Rightarrow> 'a list \<Rightarrow> py_error + ('a list \<times> 'a list)" where
  "elim_loop cnt flames steps =
     (if length flames > 1 then
        (case pop flames (removal_index cnt flames) of
           Inl e \<Rightarrow> Inl e
         | Inr (removed_char, flames') \<Rightarrow>
             elim_loop cnt
               (if length flames' > 0
                then drop (removal_index cnt flames) flames' @
                     take (removal_index cnt flames) flames'
                else flames')
               (steps @ [removed_char]))
      else Inr (flames, steps))"
  by pat_completeness auto
termination
  by (relation "measure (\<lambda>(cnt, flames, steps). length flames)")
     (auto simp: pop_def min_def split: if_splits)

declare elim_loop.simps [simp del]

text \<open>
  The placeholders and the delay are what the function is given besides the count; they
  drive the display and its pacing only, and are one parameter \<open>ui\<close> of the model.
  \<^verbatim>\<open>final = flames[0]\<close> raises on an empty list.
\<close>

definition eliminate_flames_animation :: "int \<Rightarrow> 'ui \<Rightarrow> py_error + (char \<times> string)" where
  "eliminate_flames_animation cnt ui =
     (case elim_loop cnt ''FLAMES'' [] of
        Inl e \<Rightarrow> Inl e
      | Inr (flames, steps) \<Rightarrow>
          (case flames of [] \<Rightarrow> Inl IndexError | final # _ \<Rightarrow> Inr (final, steps)))"

subsection \<open>\<^verbatim>\<open>map_result\<close>\<close>

text \<open>
  The table gives a title, an emoji and a one-line remark for each letter; the model
  keeps the title, the result category.
\<close>

definition map_result :: "char \<Rightarrow> string" where
  "map_result letter =
     (if letter = CHR ''F'' then ''Friends''
      else if letter = CHR ''L'' then ''Love''
      else if letter = CHR ''A'' then ''Affection''
      else if letter = CHR ''M'' then ''Marriage''
      else if letter = CHR ''E'' then ''Enemies''
      else if letter = CHR ''S'' then ''Siblings''
      else ''Unknown'')"

subsection \<open>The submitted form\<close>

text \<open>
  What the program does once the form is submitted. The environment of a run is what the
  run reads besides the two names: the placeholders and delay of the display, and the
  clock, read once for the time stamp of the session row. A run yields the list of the
  helper functions it called, in order, and either the error message or the session row
  together with the order of elimination.
\<close>

record 'ui env =
  display :: 'ui
  now :: string

datatype error = InvalidInput | Raised py_error

datatype call = Sanitize | Find_common_pairs | Eliminate_flames_animation | Map_result

record session =
  timestamp :: string
  name1 :: "nat list"
  name2 :: "nat list"
  remaining_count :: int
  elimination_steps :: string
  result_letter :: char
  result_word :: string

definition submitted ::
  "unicode_tables \<Rightarrow> 'ui env \<Rightarrow> nat list \<Rightarrow> nat list \<Rightarrow> call list \<times> (error + session)" where
  "submitted T e n1 n2 =
     (let s1 = sanitize T n1; s2 = sanitize T n2 in
      if s1 = [] \<or> s2 = [] then ([Sanitize, Sanitize], Inl InvalidInput)
      else
        (let cnt = remaining s1 s2 in
         case eliminate_flames_animation cnt (display e) of
           Inl err \<Rightarrow>
             ([Sanitize, Sanitize, Find_common_pairs, Eliminate_flames_animation],
              Inl (Raised err))
         | Inr (final_letter, steps) \<Rightarrow>
             ([Sanitize, Sanitize, Find_common_pairs, Eliminate_flames_animation, Map_result],
              Inr \<lparr>timestamp = now e, name1 = strip n1, name2 = strip n2,
                   remaining_count = cnt, elimination_steps = steps,
                   result_letter = final_letter, result_word = map_result final_letter\<rparr>)))"

subsection \<open>The matcher and the eliminator in the words of the specification\<close>

text \<open>
  The specification's matcher: go through the letters of \<open>A\<close> in order; for each, scan
  the letters of \<open>B\<close> in their original order and pair the letter with the first equal
  letter of \<open>B\<close> that is not matched yet; if there is none, the letter stays unmatched.
  \<open>i\<close> is the index in \<open>A\<close> of the letter looked at, \<open>matched\<close> the indices of \<open>B\<close>
  paired so far.
\<close>

fun spec_greedy_pairs :: "nat \<Rightarrow> 'a list \<Rightarrow> 'a list \<Rightarrow> nat list \<Rightarrow> (nat \<times> nat) list" where
  "spec_greedy_pairs i [] B matched = []"
| "spec_greedy_pairs i (x # A) B matched =
     (case [j \<leftarrow> [0..<length B]. j \<notin> set matched \<and> B ! j = x] of
        [] \<Rightarrow> spec_greedy_pairs (Suc i) A B matched
      | j # _ \<Rightarrow> (i, j) # spec_greedy_pairs (Suc i) A B (j # matched))"

text \<open>
  The specification's eliminator for a count \<open>N\<close>: while more than one letter remains,
  remove the letter at index \<open>(N - 1) mod n\<close>, record it, and go on with the letters after
  the removed one followed by the letters before it. The result is the list of the letters
  eliminated, in the order of their removal, and the letters that remain.
\<close>

function spec_elimination :: "nat \<Rightarrow> 'a list \<Rightarrow> 'a list \<times> 'a list" where
  "spec_elimination N ws =
     (if 1 < length ws then
        (case spec_elimination N
                (drop (Suc ((N - 1) mod length ws)) ws @ take ((N - 1) mod length ws) ws) of
           (eliminated, rest) \<Rightarrow> (ws ! ((N - 1) mod length ws) # eliminated, rest))
      else ([], ws))"
  by pat_completeness auto
termination
proof (relation "measure (\<lambda>(N, ws). length ws)")
  fix N :: nat and ws :: "'a list"
  assume "1 < length ws"
  then have "0 < length ws"
    by linarith
  then have "(N - 1) mod length ws < length ws"
    by (rule mod_less_divisor)
  then show "((N, drop (Suc ((N - 1) mod length ws)) ws @ take ((N - 1) mod length ws) ws),
              N, ws) \<in> measure (\<lambda>(N, ws). length ws)"
    by simp
qed simp

declare spec_elimination.simps [simp del]

subsection \<open>Notions used in the statements and proofs\<close>


text \<open>
  What a run computes from the two names: the error, or the count of remaining letters,
  the order of elimination, the final letter and the result category. The time stamp and
  the stripped names of the session row are left out.
\<close>

definition core :: "call list \<times> (error + session) \<Rightarrow> error + (int \<times> string \<times> char \<times> string)" where
  "core r =
     (case snd r of
        Inl e \<Rightarrow> Inl e
      | Inr s \<Rightarrow> Inr (remaining_count s, elimination_steps s, result_letter s, result_word s))"

text \<open>
  The invariant of the outer loop of \<^verbatim>\<open>find_common_pairs\<close> after the first \<open>k\<close> letters
  of \<open>a\<close>: the flag lists have the lengths of the names, the pairs are in range, pair
  equal letters and have their first index below \<open>k\<close>, a flag is set exactly at the
  paired indices, and no index is paired twice.
\<close>

definition fcp_inv :: "'a list \<Rightarrow> 'a list \<Rightarrow> nat \<Rightarrow> fcp_state \<Rightarrow> bool" where
  "fcp_inv a b k st \<longleftrightarrow>
     length (removed_a st) = length a \<and> length (removed_b st) = length b \<and>
     (\<forall>p \<in> set (pairs st). fst p < k \<and> snd p < length b \<and> a ! fst p = b ! snd p) \<and>
     (\<forall>i < length a. removed_a st ! i \<longleftrightarrow> i \<in> fst ` set (pairs st)) \<and>
     (\<forall>j < length b. removed_b st ! j \<longleftrightarrow> j \<in> snd ` set (pairs st)) \<and>
     distinct (map fst (pairs st)) \<and> distinct (map snd (pairs st))"

text \<open>The letters of \<open>b\<close> whose flag is not set, as a multiset.\<close>

definition unmatched :: "'a list \<Rightarrow> bool list \<Rightarrow> 'a multiset" where
  "unmatched b rb = image_mset ((!) b) (mset_set {j. j < length b \<and> \<not> rb ! j})"

section \<open>The eliminator\<close>

lemma removal_index_less:
  "flames \<noteq> [] \<Longrightarrow> removal_index cnt flames < length flames"
  by (simp add: removal_index_def nat_less_iff)

lemma elim_loop_stop:
  "length flames \<le> 1 \<Longrightarrow> elim_loop cnt flames steps = Inr (flames, steps)"
  by (subst elim_loop.simps) simp

text \<open>
  One round of the loop: the letter at the removal index goes to the steps, and the loop
  goes on with the letters after it followed by the letters before it.
\<close>

lemma elim_loop_step:
  assumes "1 < length flames"
  shows "elim_loop cnt flames steps =
         elim_loop cnt
           (drop (Suc (removal_index cnt flames)) flames @ take (removal_index cnt flames) flames)
           (steps @ [flames ! removal_index cnt flames])"
proof -
  let ?i = "removal_index cnt flames"
  let ?rest = "take ?i flames @ drop (Suc ?i) flames"
  from assms have ne: "flames \<noteq> []" by auto
  then have i: "?i < length flames" by (rule removal_index_less)
  have len: "0 < length ?rest" using assms i by simp
  have d: "drop ?i ?rest = drop (Suc ?i) flames" using i by simp
  have t: "take ?i ?rest = take ?i flames" using i by simp
  have p: "pop flames ?i = Inr (flames ! ?i, ?rest)" using i by (simp add: pop_def)
  show ?thesis
    by (subst elim_loop.simps) (simp only: assms p len d t if_True sum.case prod.case)
qed

text \<open>
  From any working sequence that is not empty the loop ends with one letter, and the
  letters struck are the others: nothing is lost and nothing is added.
\<close>

lemma elim_loop_total:
  "flames \<noteq> [] \<Longrightarrow>
   \<exists>final st. elim_loop cnt flames steps = Inr ([final], steps @ st) \<and>
     mset (final # st) = mset flames \<and> Suc (length st) = length flames"
proof (induction "length flames" arbitrary: flames steps rule: less_induct)
  case less
  let ?i = "removal_index cnt flames"
  show ?case
  proof (cases "1 < length flames")
    case False
    with less.prems obtain x where "flames = [x]"
      by (cases flames) auto
    then show ?thesis by (simp add: elim_loop_stop)
  next
    case True
    let ?next = "drop (Suc ?i) flames @ take ?i flames"
    from less.prems have i: "?i < length flames" by (rule removal_index_less)
    have l: "length ?next < length flames" using i by simp
    have n: "?next \<noteq> []" using True i by (auto simp: not_less)
    from less.hyps [OF l n, of "steps @ [flames ! ?i]"]
    obtain final st where
      r: "elim_loop cnt ?next (steps @ [flames ! ?i]) = Inr ([final], (steps @ [flames ! ?i]) @ st)"
      and m: "mset (final # st) = mset ?next" and s: "Suc (length st) = length ?next"
      by blast
    have fl: "flames = take ?i flames @ flames ! ?i # drop (Suc ?i) flames"
      using i by (simp add: id_take_nth_drop [symmetric])
    have "mset flames = mset (take ?i flames) + {#flames ! ?i#} + mset (drop (Suc ?i) flames)"
      by (subst fl) simp
    then have m': "mset (final # (flames ! ?i # st)) = mset flames"
      using m by simp
    have s': "Suc (length (flames ! ?i # st)) = length flames"
      using s i by simp
    have "elim_loop cnt flames steps = Inr ([final], steps @ (flames ! ?i # st))"
      using r by (simp add: elim_loop_step [OF True])
    with m' s' show ?thesis by blast
  qed
qed

lemma removal_index_nat:
  assumes "1 \<le> N"
  shows "removal_index (int N) flames = (N - 1) mod length flames"
proof -
  from assms have "int N - 1 = int (N - 1)" by simp
  then show ?thesis by (simp only: removal_index_def nat_int flip: zmod_int)
qed

text \<open>The loop computes what the specification's eliminator computes.\<close>

lemma elim_loop_spec:
  "1 \<le> N \<Longrightarrow> elim_loop (int N) flames steps =
     (case spec_elimination N flames of (eliminated, rest) \<Rightarrow> Inr (rest, steps @ eliminated))"
proof (induction "length flames" arbitrary: flames steps rule: less_induct)
  case less
  let ?i = "(N - 1) mod length flames"
  have ri: "removal_index (int N) flames = ?i"
    using less.prems by (rule removal_index_nat)
  show ?case
  proof (cases "1 < length flames")
    case False
    then show ?thesis
      by (simp add: elim_loop_stop spec_elimination.simps [of N flames])
  next
    case True
    let ?next = "drop (Suc ?i) flames @ take ?i flames"
    from True have "0 < length flames" by linarith
    then have i: "?i < length flames" by (rule mod_less_divisor)
    have l: "length ?next < length flames" using i by simp
    note ih = less.hyps [OF l less.prems, of "steps @ [flames ! ?i]"]
    show ?thesis
      using True ih
      by (simp add: elim_loop_step [OF True] ri spec_elimination.simps [of N flames]
            split: prod.splits)
  qed
qed

text \<open>For a count that is a multiple of the length, the index is the last one.\<close>

lemma removal_index_multiple:
  assumes "flames \<noteq> []" "int (length flames) dvd N"
  shows "removal_index N flames = length flames - 1"
proof -
  let ?n = "int (length flames)"
  have pos: "0 < ?n" using assms(1) by simp
  have "(N - 1) mod ?n = (N mod ?n - 1) mod ?n"
    by (simp add: mod_diff_left_eq)
  also have "\<dots> = (- 1) mod ?n" using assms(2) by simp
  also have "\<dots> = ?n - 1" using pos by (simp add: zmod_minus1)
  finally show ?thesis using pos by (simp add: removal_index_def nat_diff_distrib)
qed


text \<open>
  Claim C9. For every count that is not negative, the count 0 included, the elimination
  returns: it yields one surviving letter of FLAMES and the five letters eliminated, which
  together are the six letters of FLAMES. In every round the removal index is in range,
  the removal succeeds and takes exactly one letter out, and the loop goes on with a
  working sequence that is one letter shorter.
\<close>

theorem eliminate_terminates:
  assumes "0 \<le> cnt"
  shows "(\<exists>final steps. eliminate_flames_animation cnt ui = Inr (final, steps) \<and>
            final \<in> set ''FLAMES'' \<and> length steps = 5 \<and>
            mset (final # steps) = mset ''FLAMES'') \<and>
         (\<forall>flames steps :: string. 1 < length flames \<longrightarrow>
            removal_index cnt flames < length flames \<and>
            (\<exists>c rest. pop flames (removal_index cnt flames) = Inr (c, rest) \<and>
               Suc (length rest) = length flames) \<and>
            (\<exists>next. elim_loop cnt flames steps =
                      elim_loop cnt next (steps @ [flames ! removal_index cnt flames]) \<and>
                    Suc (length next) = length flames))"
proof (intro conjI allI impI)
  from elim_loop_total [of "''FLAMES''" cnt "[]"]
  obtain final st where r: "elim_loop cnt ''FLAMES'' [] = Inr ([final], st)"
    and m: "mset (final # st) = mset ''FLAMES''" and l: "Suc (length st) = length ''FLAMES''"
    by auto
  from m have "set (final # st) = set ''FLAMES''" by (rule mset_eq_setD)
  then have "final \<in> set ''FLAMES''" by auto
  moreover have "eliminate_flames_animation cnt ui = Inr (final, st)"
    by (simp add: eliminate_flames_animation_def r)
  moreover have "length st = 5" using l by simp
  ultimately show "\<exists>final steps. eliminate_flames_animation cnt ui = Inr (final, steps) \<and>
            final \<in> set ''FLAMES'' \<and> length steps = 5 \<and>
            mset (final # steps) = mset ''FLAMES''"
    using m by blast
next
  fix flames steps :: string
  assume n: "1 < length flames"
  then have ne: "flames \<noteq> []" by auto
  then show i: "removal_index cnt flames < length flames" by (rule removal_index_less)
  then show "\<exists>c rest. pop flames (removal_index cnt flames) = Inr (c, rest) \<and>
               Suc (length rest) = length flames"
    by (simp add: pop_def)
  have "Suc (length (drop (Suc (removal_index cnt flames)) flames @
                     take (removal_index cnt flames) flames)) = length flames"
    using i by simp
  with elim_loop_step [OF n, of cnt steps]
  show "\<exists>next. elim_loop cnt flames steps =
                      elim_loop cnt next (steps @ [flames ! removal_index cnt flames]) \<and>
                    Suc (length next) = length flames"
    by blast
qed

theorem eliminate_terminates_witness:
  "(0::int) \<le> 0 \<and> eliminate_flames_animation 0 () = Inr (CHR ''F'', ''SEMAL'') \<and>
   removal_index 0 ''FLAMES'' = 5 \<and>
   pop ''FLAMES'' (removal_index 0 ''FLAMES'') = Inr (CHR ''S'', ''FLAME'')"
proof -
  have h: "(0::int) \<le> 0" by simp
  have e: "eliminate_flames_animation 0 () = Inr (CHR ''F'', ''SEMAL'')" by code_simp
  have i: "removal_index 0 ''FLAMES'' = 5" by code_simp
  have p: "pop ''FLAMES'' 5 = Inr (CHR ''S'', ''FLAME'')" by code_simp
  from eliminate_terminates [OF h, of "()"] e i p show ?thesis by simp
qed

text \<open>
  Claim C1. For every count \<open>N \<ge> 1\<close> the program's elimination is the specification's:
  starting from the letters F, L, A, M, E, S, while more than one letter remains it
  removes the letter at index \<open>(N - 1) mod n\<close>, records it, and goes on from the letter
  after the removed one; it ends with exactly one letter, the result, and returns the five
  eliminated letters in the order of their removal, the first of them being the letter at
  index \<open>(N - 1) mod 6\<close> of FLAMES. For \<open>N = 2\<close> the first letter removed is L.
\<close>

theorem elimination_follows_spec:
  assumes "1 \<le> N"
  shows "\<exists>final steps.
           spec_elimination N ''FLAMES'' = (steps, [final]) \<and>
           eliminate_flames_animation (int N) ui = Inr (final, steps) \<and>
           length steps = 5 \<and> hd steps = ''FLAMES'' ! ((N - 1) mod 6)"
proof -
  from elim_loop_total [of "''FLAMES''" "int N" "[]"]
  obtain final st where r: "elim_loop (int N) ''FLAMES'' [] = Inr ([final], st)"
    and l: "Suc (length st) = length ''FLAMES''"
    by auto
  obtain el rest where sp: "spec_elimination N ''FLAMES'' = (el, rest)"
    by (cases "spec_elimination N ''FLAMES''")
  from elim_loop_spec [OF assms, of "''FLAMES''" "[]"] r sp
  have eq: "rest = [final]" "el = st" by simp_all
  have e: "eliminate_flames_animation (int N) ui = Inr (final, st)"
    by (simp add: eliminate_flames_animation_def r)
  have "spec_elimination N ''FLAMES'' =
          (case spec_elimination N
                  (drop (Suc ((N - 1) mod 6)) ''FLAMES'' @ take ((N - 1) mod 6) ''FLAMES'') of
             (eliminated, rest) \<Rightarrow> (''FLAMES'' ! ((N - 1) mod 6) # eliminated, rest))"
    by (subst spec_elimination.simps) simp
  with sp have "hd el = ''FLAMES'' ! ((N - 1) mod 6)"
    by (auto split: prod.splits)
  with sp eq e l show ?thesis by simp
qed

theorem elimination_follows_spec_witness:
  "(1::nat) \<le> 2 \<and> spec_elimination 2 ''FLAMES'' = (''LMSAF'', ''E'') \<and>
   eliminate_flames_animation 2 () = Inr (CHR ''E'', ''LMSAF'') \<and>
   ''FLAMES'' ! ((2 - 1) mod 6) = CHR ''L''"
proof -
  have h: "(1::nat) \<le> 2" by simp
  have s: "spec_elimination 2 ''FLAMES'' = (''LMSAF'', ''E'')" by code_simp
  from elimination_follows_spec [OF h, of "()"] s show ?thesis by simp
qed

text \<open>
  Claim C3. When the count \<open>N \<ge> 1\<close> is a multiple of the length \<open>n\<close> of the working
  sequence, the round removes the letter at the last position, index \<open>n - 1\<close>, not the
  letter at index 0, and the loop goes on with the sequence without its last letter. With
  \<open>N = 6\<close> on FLAMES the letter removed is S.
\<close>

theorem multiple_removes_last:
  assumes "1 \<le> N" and "1 < length flames" and "int (length flames) dvd N"
  shows "removal_index N flames = length flames - 1 \<and>
         removal_index N flames \<noteq> 0 \<and>
         pop flames (removal_index N flames) = Inr (last flames, butlast flames) \<and>
         elim_loop N flames steps = elim_loop N (butlast flames) (steps @ [last flames])"
proof -
  from assms(2) have ne: "flames \<noteq> []" by auto
  have i: "removal_index N flames = length flames - 1"
    using ne assms(3) by (rule removal_index_multiple)
  have nz: "removal_index N flames \<noteq> 0" using i assms(2) by simp
  have la: "flames ! (length flames - 1) = last flames"
    using ne by (simp add: last_conv_nth)
  have bu: "take (length flames - 1) flames = butlast flames"
    by (simp add: butlast_conv_take)
  have dr: "drop (Suc (length flames - 1)) flames = []"
    by simp
  have lt: "length flames - 1 < length flames"
    using ne by simp
  have p: "pop flames (removal_index N flames) = Inr (last flames, butlast flames)"
    by (simp only: pop_def i la bu dr lt if_True append_Nil2)
  have "elim_loop N flames steps = elim_loop N (butlast flames) (steps @ [last flames])"
    by (simp only: elim_loop_step [OF assms(2)] i la bu dr append_Nil)
  with i nz p show ?thesis by simp
qed

theorem multiple_removes_last_witness:
  "(1::int) \<le> 6 \<and> 1 < length ''FLAMES'' \<and> int (length ''FLAMES'') dvd 6 \<and>
   removal_index 6 ''FLAMES'' = 5 \<and>
   pop ''FLAMES'' (removal_index 6 ''FLAMES'') = Inr (CHR ''S'', ''FLAME'') \<and>
   elim_loop 6 ''FLAMES'' [] = elim_loop 6 ''FLAME'' ''S'' \<and>
   eliminate_flames_animation 6 () = Inr (CHR ''M'', ''SFALE'')"
proof -
  have h1: "(1::int) \<le> 6" by simp
  have h2: "1 < length ''FLAMES''" by simp
  have h3: "int (length ''FLAMES'') dvd 6" by simp
  have e: "eliminate_flames_animation 6 () = Inr (CHR ''M'', ''SFALE'')" by code_simp
  have v: "length ''FLAMES'' - 1 = 5" "last ''FLAMES'' = CHR ''S''"
    "butlast ''FLAMES'' = ''FLAME''"
    by simp_all
  note t = multiple_removes_last [OF h1 h2 h3, of "[]", unfolded v append_Nil]
  from t h1 h2 h3 e show ?thesis by blast
qed

section \<open>The matcher\<close>

lemma first_available_filter_from:
  "first_available ch (enumerate k bs) rb =
     (case filter (\<lambda>j. \<not> rb ! j \<and> ch = bs ! (j - k)) [k..<k + length bs] of
        [] \<Rightarrow> None | j # _ \<Rightarrow> Some j)"
proof (induction bs arbitrary: k)
  case Nil
  then show ?case by simp
next
  case (Cons x xs)
  have up: "[k..<k + length (x # xs)] = k # [Suc k..<Suc k + length xs]"
    by (subst upt_rec) simp
  have f: "filter (\<lambda>j. \<not> rb ! j \<and> ch = (x # xs) ! (j - k)) [Suc k..<Suc k + length xs] =
           filter (\<lambda>j. \<not> rb ! j \<and> ch = xs ! (j - Suc k)) [Suc k..<Suc k + length xs]"
  proof (rule filter_cong)
    fix j assume "j \<in> set [Suc k..<Suc k + length xs]"
    then have "j - k = Suc (j - Suc k)" by auto
    then show "(\<not> rb ! j \<and> ch = (x # xs) ! (j - k)) = (\<not> rb ! j \<and> ch = xs ! (j - Suc k))"
      by simp
  qed simp
  show ?case
    by (simp only: up enumerate_simps first_available.simps filter.simps f Cons.IH [of "Suc k"])
       simp
qed

lemma first_available_filter:
  "first_available ch (enumerate 0 b) rb =
     (case filter (\<lambda>j. \<not> rb ! j \<and> b ! j = ch) [0..<length b] of
        [] \<Rightarrow> None | j # _ \<Rightarrow> Some j)"
proof -
  have "(\<lambda>j. \<not> rb ! j \<and> ch = b ! (j - 0)) = (\<lambda>j. \<not> rb ! j \<and> b ! j = ch)"
    by auto
  with first_available_filter_from [of ch 0 b rb] show ?thesis by simp
qed

lemma first_available_None:
  "first_available ch (enumerate 0 b) rb = None \<longleftrightarrow> (\<forall>j < length b. rb ! j \<or> b ! j \<noteq> ch)"
proof -
  have "first_available ch (enumerate 0 b) rb = None \<longleftrightarrow>
        filter (\<lambda>j. \<not> rb ! j \<and> b ! j = ch) [0..<length b] = []"
    by (simp add: first_available_filter split: list.splits)
  also have "\<dots> \<longleftrightarrow> (\<forall>j < length b. rb ! j \<or> b ! j \<noteq> ch)"
    by (auto simp: filter_empty_conv)
  finally show ?thesis .
qed

lemma first_available_Some:
  assumes "first_available ch (enumerate 0 b) rb = Some j"
  shows "j < length b \<and> \<not> rb ! j \<and> b ! j = ch"
proof -
  from assms obtain js where "filter (\<lambda>j. \<not> rb ! j \<and> b ! j = ch) [0..<length b] = j # js"
    by (auto simp: first_available_filter split: list.splits)
  then have "j \<in> set (filter (\<lambda>j. \<not> rb ! j \<and> b ! j = ch) [0..<length b])"
    by simp
  then show ?thesis by simp
qed

lemma fcp_inv_init: "fcp_inv a b 0 (fcp_init a b)"
  by (simp add: fcp_inv_def fcp_init_def)

lemma fcp_inv_step:
  assumes inv: "fcp_inv a b k st" and k: "k < length a"
  shows "fcp_inv a b (Suc k) (pair_step b (k, a ! k) st)"
proof (cases "first_available (a ! k) (enumerate 0 b) (removed_b st)")
  case None
  then have "pair_step b (k, a ! k) st = st"
    by (simp add: pair_step_def)
  with inv show ?thesis
    by (auto simp: fcp_inv_def less_Suc_eq)
next
  case (Some j)
  from first_available_Some [OF Some]
  have j: "j < length b" and nr: "\<not> removed_b st ! j" and eq: "b ! j = a ! k"
    by auto
  let ?st = "st\<lparr>removed_a := (removed_a st)[k := True],
                removed_b := (removed_b st)[j := True],
                pairs := pairs st @ [(k, j)]\<rparr>"
  have st: "pair_step b (k, a ! k) st = ?st"
    using Some by (simp add: pair_step_def)
  from inv have la: "length (removed_a st) = length a" and lb: "length (removed_b st) = length b"
    and ps: "\<forall>p \<in> set (pairs st). fst p < k \<and> snd p < length b \<and> a ! fst p = b ! snd p"
    and fa: "\<forall>i < length a. removed_a st ! i \<longleftrightarrow> i \<in> fst ` set (pairs st)"
    and fb: "\<forall>j < length b. removed_b st ! j \<longleftrightarrow> j \<in> snd ` set (pairs st)"
    and da: "distinct (map fst (pairs st))" and db: "distinct (map snd (pairs st))"
    by (simp_all add: fcp_inv_def)
  have knew: "k \<notin> fst ` set (pairs st)" using ps by force
  have jnew: "j \<notin> snd ` set (pairs st)" using fb j nr by blast
  have 1: "\<forall>p \<in> set (pairs ?st). fst p < Suc k \<and> snd p < length b \<and> a ! fst p = b ! snd p"
    using ps j eq by (auto simp: less_Suc_eq)
  have 2: "\<forall>i < length a. removed_a ?st ! i \<longleftrightarrow> i \<in> fst ` set (pairs ?st)"
    using fa la k by (auto simp: nth_list_update)
  have 3: "\<forall>j < length b. removed_b ?st ! j \<longleftrightarrow> j \<in> snd ` set (pairs ?st)"
    using fb lb j by (auto simp: nth_list_update)
  have 4: "distinct (map fst (pairs ?st))" "distinct (map snd (pairs ?st))"
    using da db knew jnew by simp_all
  show ?thesis
    unfolding st fcp_inv_def using la lb 1 2 3 4 by simp
qed

lemma fcp_inv_fold:
  "fcp_inv a b k st \<Longrightarrow> k \<le> length a \<Longrightarrow>
   fcp_inv a b (length a) (fold (pair_step b) (enumerate k (drop k a)) st)"
proof (induction "length a - k" arbitrary: k st)
  case 0
  then show ?case by simp
next
  case (Suc n)
  then have k: "k < length a" by simp
  have d: "drop k a = a ! k # drop (Suc k) a"
    using k by (simp add: Cons_nth_drop_Suc)
  have n: "n = length a - Suc k" using Suc.hyps(2) by simp
  from Suc.hyps(1) [OF n fcp_inv_step [OF Suc.prems(1) k]] k
  show ?case by (simp add: d)
qed

lemma fcp_inv_final:
  "fcp_inv a b (length a) (fold (pair_step b) (enumerate 0 a) (fcp_init a b))"
  using fcp_inv_fold [OF fcp_inv_init, of a b] by simp

lemma pairs_fold_greedy:
  "length (removed_b st) = length b \<Longrightarrow>
   (\<forall>j < length b. removed_b st ! j \<longleftrightarrow> j \<in> set matched) \<Longrightarrow>
   pairs (fold (pair_step b) (enumerate k as) st) = pairs st @ spec_greedy_pairs k as b matched"
proof (induction as arbitrary: k st matched)
  case Nil
  then show ?case by simp
next
  case (Cons x as)
  let ?P = "\<lambda>j. \<not> removed_b st ! j \<and> b ! j = x"
  have f: "filter (\<lambda>j. j \<notin> set matched \<and> b ! j = x) [0..<length b] = filter ?P [0..<length b]"
    using Cons.prems(2) by (intro filter_cong) auto
  show ?case
  proof (cases "filter ?P [0..<length b]")
    case Nil
    then have "pair_step b (k, x) st = st"
      by (simp add: pair_step_def first_available_filter)
    with Nil f Cons.IH [OF Cons.prems, of "Suc k"] show ?thesis
      by simp
  next
    case (Cons j js)
    let ?st = "st\<lparr>removed_a := (removed_a st)[k := True],
                  removed_b := (removed_b st)[j := True],
                  pairs := pairs st @ [(k, j)]\<rparr>"
    have st: "pair_step b (k, x) st = ?st"
      using Cons by (simp add: pair_step_def first_available_filter)
    have "j \<in> set (filter ?P [0..<length b])"
      using Cons by simp
    then have j: "j < length b" by simp
    have l: "length (removed_b ?st) = length b"
      using Cons.prems(1) by simp
    have m: "\<forall>j' < length b. removed_b ?st ! j' \<longleftrightarrow> j' \<in> set (j # matched)"
      using Cons.prems j by (auto simp: nth_list_update)
    from Cons.IH [OF l m, of "Suc k"] Cons f show ?thesis
      by (simp add: st)
  qed
qed

lemma animate_crosses_id:
  "\<forall>p \<in> set ps. fst p < length ra \<and> ra ! fst p \<and> snd p < length rb \<and> rb ! snd p \<Longrightarrow>
   animate_crosses ps (ra, rb) = (ra, rb)"
proof (induction ps)
  case Nil
  then show ?case by (simp add: animate_crosses_def)
next
  case (Cons p ps)
  have a: "ra[fst p := True] = ra"
    using Cons.prems by (simp add: list_update_same_conv)
  have b: "rb[snd p := True] = rb"
    using Cons.prems by (simp add: list_update_same_conv)
  from Cons show ?case
    by (simp add: animate_crosses_def a b)
qed

lemma count_unset_flags:
  assumes len: "length flags = n"
    and flags: "\<forall>i < n. flags ! i \<longleftrightarrow> i \<in> set is"
    and range: "\<forall>i \<in> set is. i < n" and dist: "distinct is"
  shows "count_unset flags = int n - int (length is)"
proof -
  have "{i. i < length flags \<and> \<not> flags ! i} = {..<n} - set is"
    using len flags by auto
  then have "length (filter (\<lambda>x. \<not> x) flags) = card ({..<n} - set is)"
    by (simp add: length_filter_conv_card)
  also have "\<dots> = card {..<n} - card (set is)"
    using range by (intro card_Diff_subset) auto
  also have "\<dots> = n - length is"
    using dist by (simp add: distinct_card)
  finally have c: "length (filter (\<lambda>x. \<not> x) flags) = n - length is" .
  have "card (set is) \<le> card {..<n}"
    using range by (intro card_mono) auto
  then have "length is \<le> n"
    using dist by (simp add: distinct_card)
  with c show ?thesis by (simp add: count_unset_def of_nat_diff)
qed

lemma unmatched_init: "unmatched b (replicate (length b) False) = mset b"
proof -
  have "{j. j < length b \<and> \<not> replicate (length b) False ! j} = {0..<length b}"
    by auto
  then have "unmatched b (replicate (length b) False) = image_mset ((!) b) (mset [0..<length b])"
    by (simp add: unmatched_def)
  also have "\<dots> = mset (map ((!) b) [0..<length b])"
    by simp
  also have "\<dots> = mset b"
    by (simp only: map_nth)
  finally show ?thesis .
qed

lemma unmatched_member:
  "ch \<in># unmatched b rb \<longleftrightarrow> (\<exists>j < length b. \<not> rb ! j \<and> b ! j = ch)"
  by (auto simp: unmatched_def)

lemma unmatched_update:
  assumes "j < length b" and "\<not> rb ! j" and "length rb = length b"
  shows "unmatched b (rb[j := True]) = unmatched b rb - {#b ! j#}"
proof -
  let ?A = "{j. j < length b \<and> \<not> rb ! j}"
  have fin: "finite ?A" by simp
  have jA: "j \<in> ?A" using assms by simp
  have "{j'. j' < length b \<and> \<not> rb[j := True] ! j'} = ?A - {j}"
    using assms by (auto simp: nth_list_update)
  then have "unmatched b (rb[j := True]) = image_mset ((!) b) (mset_set (?A - {j}))"
    by (simp add: unmatched_def)
  also have "mset_set (?A - {j}) = mset_set ?A - {#j#}"
    using fin jA by (simp add: mset_set_Diff)
  also have "image_mset ((!) b) (mset_set ?A - {#j#}) = image_mset ((!) b) (mset_set ?A) - {#b ! j#}"
    using fin jA by (simp add: image_mset_Diff)
  finally show ?thesis by (simp add: unmatched_def)
qed

lemma length_pairs_fold:
  "length (removed_b st) = length b \<Longrightarrow>
   length (pairs (fold (pair_step b) (enumerate k as) st)) =
     length (pairs st) + size (mset as \<inter># unmatched b (removed_b st))"
proof (induction as arbitrary: k st)
  case Nil
  then show ?case by simp
next
  case (Cons x as)
  show ?case
  proof (cases "first_available x (enumerate 0 b) (removed_b st)")
    case None
    then have st: "pair_step b (k, x) st = st"
      by (simp add: pair_step_def)
    from None have "\<not> x \<in># unmatched b (removed_b st)"
      by (simp add: first_available_None unmatched_member)
    then have "mset (x # as) \<inter># unmatched b (removed_b st) = mset as \<inter># unmatched b (removed_b st)"
      by (simp add: inter_add_left1)
    with Cons.IH [OF Cons.prems, of "Suc k"] show ?thesis
      by (simp add: st)
  next
    case (Some j)
    from first_available_Some [OF Some]
    have j: "j < length b" and nr: "\<not> removed_b st ! j" and eq: "b ! j = x"
      by auto
    let ?st = "st\<lparr>removed_a := (removed_a st)[k := True],
                  removed_b := (removed_b st)[j := True],
                  pairs := pairs st @ [(k, j)]\<rparr>"
    have st: "pair_step b (k, x) st = ?st"
      using Some by (simp add: pair_step_def)
    have l: "length (removed_b ?st) = length b"
      using Cons.prems by simp
    have u: "unmatched b (removed_b ?st) = unmatched b (removed_b st) - {#x#}"
      using unmatched_update [OF j nr Cons.prems] eq by simp
    have "x \<in># unmatched b (removed_b st)"
      using j nr eq by (auto simp: unmatched_member)
    then have "mset (x # as) \<inter># unmatched b (removed_b st) =
               add_mset x (mset as \<inter># (unmatched b (removed_b st) - {#x#}))"
      by (simp add: inter_add_left2)
    with Cons.IH [OF l, of "Suc k"] u show ?thesis
      by (simp add: st)
  qed
qed

lemma find_common_pairs_inv:
  assumes "find_common_pairs a b = (ps, ra, rb)"
  shows "fcp_inv a b (length a) \<lparr>removed_a = ra, removed_b = rb, pairs = ps\<rparr>"
proof -
  let ?st = "fold (pair_step b) (enumerate 0 a) (fcp_init a b)"
  from assms have "?st = \<lparr>removed_a = ra, removed_b = rb, pairs = ps\<rparr>"
    by (cases ?st) (simp add: find_common_pairs_def)
  with fcp_inv_final [of a b] show ?thesis by simp
qed

lemma pairs_in_range:
  assumes "find_common_pairs a b = (ps, ra, rb)"
  shows "\<forall>p \<in> set ps. fst p < length ra \<and> snd p < length rb"
  using find_common_pairs_inv [OF assms] by (auto simp: fcp_inv_def)

lemma find_common_pairs_greedy:
  "fst (find_common_pairs a b) = spec_greedy_pairs 0 a b []"
  using pairs_fold_greedy [of "fcp_init a b" b "[]" 0 a]
  by (simp add: find_common_pairs_def fcp_init_def Let_def)

lemma length_find_common_pairs:
  "length (fst (find_common_pairs a b)) = size (mset a \<inter># mset b)"
  using length_pairs_fold [of "fcp_init a b" b 0 a]
  by (simp add: find_common_pairs_def fcp_init_def unmatched_init Let_def)

lemma remaining_formula:
  assumes "find_common_pairs a b = (ps, ra, rb)"
  shows "remaining a b = (int (length a) - int (length ps)) + (int (length b) - int (length ps))"
proof -
  note inv = find_common_pairs_inv [OF assms, unfolded fcp_inv_def, simplified]
  have id: "animate_crosses ps (ra, rb) = (ra, rb)"
    using inv by (intro animate_crosses_id) force
  have ca: "count_unset ra = int (length a) - int (length (map fst ps))"
    using inv by (intro count_unset_flags) auto
  have cb: "count_unset rb = int (length b) - int (length (map snd ps))"
    using inv by (intro count_unset_flags) auto
  show ?thesis
    using ca cb by (simp add: remaining_def assms id)
qed

lemma remaining_mset:
  "remaining a b = int (length a) + int (length b) - 2 * int (size (mset a \<inter># mset b))"
proof -
  obtain ps ra rb where f: "find_common_pairs a b = (ps, ra, rb)"
    by (cases "find_common_pairs a b")
  from length_find_common_pairs [of a b] f have "length ps = size (mset a \<inter># mset b)"
    by simp
  with remaining_formula [OF f] show ?thesis by simp
qed

lemma mset_inter_full:
  assumes "size (A \<inter># B) = size A" and "size (A \<inter># B) = size B"
  shows "A = B"
proof -
  have "A \<inter># B = A"
    using assms(1) by (metis subset_mset.inf_le1 mset_subset_size subset_mset.le_less less_irrefl)
  moreover have "A \<inter># B = B"
    using assms(2) by (metis subset_mset.inf_le2 mset_subset_size subset_mset.le_less less_irrefl)
  ultimately show ?thesis by simp
qed

lemma remaining_commute: "remaining A B = remaining B A"
  by (simp add: remaining_mset subset_mset.inf_commute [of "mset A" "mset B"] add.commute)

text \<open>
  Claim C2. For every two letter sequences \<open>A\<close> and \<open>B\<close> the pairs found by the program
  are the pairs of the greedy first-available policy of the specification: the letters of
  \<open>A\<close> in order, each paired with the first equal letter of \<open>B\<close>, in the order of \<open>B\<close>,
  that is not paired yet, and left unpaired when there is none. Every pair is in range
  and pairs equal letters, and the count of remaining letters is (length of \<open>A\<close> minus
  the number of pairs) plus (length of \<open>B\<close> minus the number of pairs).
\<close>

theorem matcher_greedy:
  "fst (find_common_pairs A B) = spec_greedy_pairs 0 A B [] \<and>
   (\<forall>p \<in> set (fst (find_common_pairs A B)).
      fst p < length A \<and> snd p < length B \<and> A ! fst p = B ! snd p) \<and>
   remaining A B =
     (int (length A) - int (length (fst (find_common_pairs A B)))) +
     (int (length B) - int (length (fst (find_common_pairs A B))))"
proof -
  obtain ps ra rb where f: "find_common_pairs A B = (ps, ra, rb)"
    by (cases "find_common_pairs A B")
  have g: "ps = spec_greedy_pairs 0 A B []"
    using find_common_pairs_greedy [of A B] f by simp
  have p: "\<forall>p \<in> set ps. fst p < length A \<and> snd p < length B \<and> A ! fst p = B ! snd p"
    using find_common_pairs_inv [OF f] by (auto simp: fcp_inv_def)
  from g p remaining_formula [OF f] show ?thesis
    by (simp add: f)
qed

theorem matcher_greedy_witness:
  "fst (find_common_pairs ''abc'' ''bcd'') = [(1, 0), (2, 1)] \<and>
   spec_greedy_pairs 0 ''abc'' ''bcd'' [] = [(1, 0), (2, 1)] \<and>
   remaining ''abc'' ''bcd'' = (3 - 2) + (3 - 2)"
proof -
  have g: "spec_greedy_pairs 0 ''abc'' ''bcd'' [] = [(1, 0), (2, 1)]" by code_simp
  from matcher_greedy [of "''abc''" "''bcd''"] g show ?thesis by simp
qed

text \<open>
  Claim C7. In the pairs found by the program, every index of \<open>A\<close> and every index of
  \<open>B\<close> occurs in at most one pair, for every two input sequences.
\<close>

theorem pairs_indices_unique:
  "distinct (map fst (fst (find_common_pairs A B))) \<and>
   distinct (map snd (fst (find_common_pairs A B)))"
proof -
  obtain ps ra rb where f: "find_common_pairs A B = (ps, ra, rb)"
    by (cases "find_common_pairs A B")
  from find_common_pairs_inv [OF f] show ?thesis
    by (simp add: fcp_inv_def f)
qed

theorem pairs_indices_unique_witness:
  "fst (find_common_pairs ''steve'' ''eve'') = [(2, 0), (3, 1), (4, 2)] \<and>
   distinct (map fst (fst (find_common_pairs ''steve'' ''eve''))) \<and>
   distinct (map snd (fst (find_common_pairs ''steve'' ''eve'')))"
proof -
  have "fst (find_common_pairs ''steve'' ''eve'') = [(2, 0), (3, 1), (4, 2)]" by code_simp
  with pairs_indices_unique [of "''steve''" "''eve''"] show ?thesis by simp
qed

text \<open>
  Claim C6. For two sequences that are not empty, the count of remaining letters is 0
  when the sequences are permutations of each other (equal as multisets of letters), and
  at least 1 otherwise.
\<close>

theorem remaining_zero_iff_permutation:
  assumes "A \<noteq> []" and "B \<noteq> []"
  shows "(mset A = mset B \<longrightarrow> remaining A B = 0) \<and>
         (mset A \<noteq> mset B \<longrightarrow> 1 \<le> remaining A B)"
proof (intro conjI impI)
  assume eq: "mset A = mset B"
  then have "length A = length B" by (rule mset_eq_length)
  with eq show "remaining A B = 0"
    by (simp add: remaining_mset)
next
  assume ne: "mset A \<noteq> mset B"
  let ?m = "size (mset A \<inter># mset B)"
  have a: "?m \<le> length A"
    using size_mset_mono [of "mset A \<inter># mset B" "mset A"] by simp
  have b: "?m \<le> length B"
    using size_mset_mono [of "mset A \<inter># mset B" "mset B"] by simp
  have "?m \<noteq> length A \<or> ?m \<noteq> length B"
    using mset_inter_full [of "mset A" "mset B"] ne by auto
  with a b show "1 \<le> remaining A B"
    by (auto simp: remaining_mset)
qed

theorem remaining_zero_iff_permutation_witness:
  "''ab'' \<noteq> [] \<and> ''ba'' \<noteq> [] \<and> mset ''ab'' = mset ''ba'' \<and> remaining ''ab'' ''ba'' = 0 \<and>
   ''abc'' \<noteq> [] \<and> ''bcd'' \<noteq> [] \<and> mset ''abc'' \<noteq> mset ''bcd'' \<and> 1 \<le> remaining ''abc'' ''bcd''"
proof -
  have h1: "''ab'' \<noteq> []" and h2: "''ba'' \<noteq> []" and h3: "''abc'' \<noteq> []" and h4: "''bcd'' \<noteq> []"
    by simp_all
  have m1: "mset ''ab'' = mset ''ba''" by (simp add: add_mset_commute)
  have "CHR ''a'' \<in># mset ''abc''" by simp
  moreover have "\<not> CHR ''a'' \<in># mset ''bcd''" by simp
  ultimately have m2: "mset ''abc'' \<noteq> mset ''bcd''" by metis
  from remaining_zero_iff_permutation [OF h1 h2] remaining_zero_iff_permutation [OF h3 h4]
    h1 h2 h3 h4 m1 m2
  show ?thesis by blast
qed

section \<open>The normalizer\<close>

text \<open>Below 256, lowercasing keeps a code point below 256 and keeps it a letter or not.\<close>

lemma lower_char_below: "c < 256 \<Longrightarrow> lower_char c < 256"
  by (auto simp: lower_char_def)

lemma isalpha_lower_char: "c < 256 \<Longrightarrow> isalpha T (lower_char c) = isalpha T c"
  by (auto simp: isalpha_def lower_char_def)


lemma sanitize_below_256:
  assumes "below_256 name"
  shows "sanitize T name = map lower_char (filter (isalpha T) name)"
proof -
  from assms have b: "\<forall>c \<in> set name. c < 256"
    by (simp add: below_256_def list_all_iff)
  have "filter (isalpha T) (map lower_char name) =
        map lower_char (filter (isalpha T \<circ> lower_char) name)"
    by (simp add: filter_map)
  also have "filter (isalpha T \<circ> lower_char) name = filter (isalpha T) name"
    using b by (intro filter_cong) (auto simp: isalpha_lower_char)
  finally show ?thesis
    using assms by (simp add: sanitize_def lower_def)
qed

lemma sanitize_empty_iff: "sanitize T name = [] \<longleftrightarrow> (\<forall>c \<in> set (lower T name). \<not> isalpha T c)"
  by (simp add: sanitize_def filter_empty_conv)

lemma sanitize_empty_iff_below_256:
  "below_256 name \<Longrightarrow> sanitize T name = [] \<longleftrightarrow> (\<forall>c \<in> set name. \<not> isalpha T c)"
  by (simp add: sanitize_below_256 filter_empty_conv)





section \<open>The submitted form\<close>

text \<open>The elimination returns for every count, and does not depend on the display.\<close>

lemma eliminate_Inr:
  "\<exists>final steps. eliminate_flames_animation cnt ui = Inr (final, steps)"
proof -
  from elim_loop_total [of "''FLAMES''" cnt "[]"]
  obtain final st where "elim_loop cnt ''FLAMES'' [] = Inr ([final], st)"
    by auto
  then show ?thesis by (simp add: eliminate_flames_animation_def)
qed

lemma eliminate_ui:
  "eliminate_flames_animation cnt ui = eliminate_flames_animation cnt ui'"
  by (simp add: eliminate_flames_animation_def)

lemma core_submitted:
  "core (submitted T e n1 n2) =
     (if sanitize T n1 = [] \<or> sanitize T n2 = [] then Inl InvalidInput
      else case eliminate_flames_animation (remaining (sanitize T n1) (sanitize T n2)) () of
             Inl err \<Rightarrow> Inl (Raised err)
           | Inr (final_letter, steps) \<Rightarrow>
               Inr (remaining (sanitize T n1) (sanitize T n2), steps, final_letter,
                    map_result final_letter))"
  by (simp add: core_def submitted_def Let_def eliminate_ui [of _ "display e" "()"]
        split: sum.splits prod.splits)

text \<open>
  Claim C4. A run ends with the error InvalidInput exactly when at least one of the two
  names normalizes to the empty sequence, that is, when its lowercased form has no
  alphabetic character, which for a name over code points below 256 is to say that the
  name itself has no alphabetic character; in that case the run calls nothing beyond the
  two normalizations, so neither the matching nor the elimination is performed. For all
  other inputs the run calls the matcher, the eliminator and the result table, and yields
  a result.
\<close>

theorem invalid_input_iff:
  "(snd (submitted T e n1 n2) = Inl InvalidInput \<longleftrightarrow> sanitize T n1 = [] \<or> sanitize T n2 = []) \<and>
   (sanitize T n1 = [] \<longleftrightarrow> (\<forall>c \<in> set (lower T n1). \<not> isalpha T c)) \<and>
   (sanitize T n2 = [] \<longleftrightarrow> (\<forall>c \<in> set (lower T n2). \<not> isalpha T c)) \<and>
   (below_256 n1 \<longrightarrow> (sanitize T n1 = [] \<longleftrightarrow> (\<forall>c \<in> set n1. \<not> isalpha T c))) \<and>
   (below_256 n2 \<longrightarrow> (sanitize T n2 = [] \<longleftrightarrow> (\<forall>c \<in> set n2. \<not> isalpha T c))) \<and>
   (sanitize T n1 = [] \<or> sanitize T n2 = [] \<longrightarrow> fst (submitted T e n1 n2) = [Sanitize, Sanitize]) \<and>
   (sanitize T n1 \<noteq> [] \<and> sanitize T n2 \<noteq> [] \<longrightarrow>
      (\<exists>s. snd (submitted T e n1 n2) = Inr s) \<and>
      fst (submitted T e n1 n2) =
        [Sanitize, Sanitize, Find_common_pairs, Eliminate_flames_animation, Map_result])"
proof -
  obtain final steps where
    el: "eliminate_flames_animation (remaining (sanitize T n1) (sanitize T n2)) (display e) =
           Inr (final, steps)"
    using eliminate_Inr [of "remaining (sanitize T n1) (sanitize T n2)" "display e"] by auto
  have 1: "snd (submitted T e n1 n2) = Inl InvalidInput \<longleftrightarrow> sanitize T n1 = [] \<or> sanitize T n2 = []"
    by (simp add: submitted_def Let_def el)
  have 2: "sanitize T n1 = [] \<or> sanitize T n2 = [] \<longrightarrow>
             fst (submitted T e n1 n2) = [Sanitize, Sanitize]"
    by (simp add: submitted_def Let_def)
  have 3: "sanitize T n1 \<noteq> [] \<and> sanitize T n2 \<noteq> [] \<longrightarrow>
      (\<exists>s. snd (submitted T e n1 n2) = Inr s) \<and>
      fst (submitted T e n1 n2) =
        [Sanitize, Sanitize, Find_common_pairs, Eliminate_flames_animation, Map_result]"
    by (simp add: submitted_def Let_def el)
  from 1 2 3 sanitize_empty_iff [of T n1] sanitize_empty_iff [of T n2]
    sanitize_empty_iff_below_256 [of n1 T] sanitize_empty_iff_below_256 [of n2 T]
  show ?thesis by blast
qed

theorem invalid_input_iff_witness:
  "below_256 (py_str ''12 !'') \<and> sanitize no_tables (py_str ''12 !'') = [] \<and>
   submitted no_tables \<lparr>display = (), now = ''t''\<rparr> (py_str ''12 !'') (py_str ''eve'') =
     ([Sanitize, Sanitize], Inl InvalidInput) \<and>
   sanitize no_tables (py_str ''steve'') \<noteq> [] \<and> sanitize no_tables (py_str ''eve'') \<noteq> [] \<and>
   submitted no_tables \<lparr>display = (), now = ''t''\<rparr> (py_str ''steve'') (py_str ''eve'') =
     ([Sanitize, Sanitize, Find_common_pairs, Eliminate_flames_animation, Map_result],
      Inr \<lparr>timestamp = ''t'', name1 = py_str ''steve'', name2 = py_str ''eve'',
           remaining_count = 2, elimination_steps = ''LMSAF'', result_letter = CHR ''E'',
           result_word = ''Enemies''\<rparr>)"
proof -
  let ?e = "\<lparr>display = (), now = ''t''\<rparr>"
  have b: "below_256 (py_str ''12 !'')" by code_simp
  have s: "sanitize no_tables (py_str ''12 !'') = []"
    "sanitize no_tables (py_str ''steve'') \<noteq> []" "sanitize no_tables (py_str ''eve'') \<noteq> []"
    by code_simp+
  have r: "snd (submitted no_tables ?e (py_str ''steve'') (py_str ''eve'')) =
     Inr \<lparr>timestamp = ''t'', name1 = py_str ''steve'', name2 = py_str ''eve'',
           remaining_count = 2, elimination_steps = ''LMSAF'', result_letter = CHR ''E'',
           result_word = ''Enemies''\<rparr>"
    by code_simp
  note t1 = invalid_input_iff [of no_tables ?e "py_str ''12 !''" "py_str ''eve''"]
  note t2 = invalid_input_iff [of no_tables ?e "py_str ''steve''" "py_str ''eve''"]
  from t1 s(1) have "snd (submitted no_tables ?e (py_str ''12 !'') (py_str ''eve'')) = Inl InvalidInput"
    and "fst (submitted no_tables ?e (py_str ''12 !'') (py_str ''eve'')) = [Sanitize, Sanitize]"
    by blast+
  then have 1: "submitted no_tables ?e (py_str ''12 !'') (py_str ''eve'') =
                  ([Sanitize, Sanitize], Inl InvalidInput)"
    by (simp add: prod_eq_iff)
  from t2 s(2,3) have "fst (submitted no_tables ?e (py_str ''steve'') (py_str ''eve'')) =
      [Sanitize, Sanitize, Find_common_pairs, Eliminate_flames_animation, Map_result]"
    by blast
  with r have 2: "submitted no_tables ?e (py_str ''steve'') (py_str ''eve'') =
     ([Sanitize, Sanitize, Find_common_pairs, Eliminate_flames_animation, Map_result],
      Inr \<lparr>timestamp = ''t'', name1 = py_str ''steve'', name2 = py_str ''eve'',
           remaining_count = 2, elimination_steps = ''LMSAF'', result_letter = CHR ''E'',
           result_word = ''Enemies''\<rparr>)"
    by (simp add: prod_eq_iff)
  from b s 1 2 show ?thesis
    by (intro conjI)
qed

text \<open>
  Claim C8. The computation is deterministic: two runs on the same two names, in whatever
  environment (display, delay, clock), call the same functions and yield the same count of
  remaining letters, the same order of elimination, the same final letter and the same
  result category, or the same error.
\<close>

theorem submitted_deterministic:
  "core (submitted T e n1 n2) = core (submitted T e' n1 n2) \<and>
   fst (submitted T e n1 n2) = fst (submitted T e' n1 n2)"
proof -
  have "fst (submitted T e n1 n2) = fst (submitted T e' n1 n2)"
    by (simp add: submitted_def Let_def eliminate_ui [of _ "display e" "()"]
          eliminate_ui [of _ "display e'" "()"] split: sum.splits prod.splits)
  then show ?thesis by (simp add: core_submitted)
qed

theorem submitted_deterministic_witness:
  "core (submitted no_tables \<lparr>display = (), now = ''2025-01-01T10:00:00''\<rparr>
           (py_str ''Steve'') (py_str ''Eve!'')) =
     Inr (2, ''LMSAF'', CHR ''E'', ''Enemies'') \<and>
   core (submitted no_tables \<lparr>display = True, now = ''2026-06-30T23:59:59''\<rparr>
           (py_str ''Steve'') (py_str ''Eve!'')) =
     Inr (2, ''LMSAF'', CHR ''E'', ''Enemies'')"
proof -
  have c: "core (submitted no_tables \<lparr>display = (), now = ''2025-01-01T10:00:00''\<rparr>
           (py_str ''Steve'') (py_str ''Eve!'')) =
     Inr (2, ''LMSAF'', CHR ''E'', ''Enemies'')"
    by code_simp
  note t = submitted_deterministic [of no_tables "\<lparr>display = (), now = ''2025-01-01T10:00:00''\<rparr>"
      "py_str ''Steve''" "py_str ''Eve!''" "\<lparr>display = True, now = ''2026-06-30T23:59:59''\<rparr>",
      THEN conjunct1]
  from c t [symmetric] show ?thesis
    by (simp only: c simp_thms)
qed

text \<open>
  Claim C10. The result is symmetric in the two names: matching \<open>A\<close> against \<open>B\<close> leaves
  as many letters as matching \<open>B\<close> against \<open>A\<close>, so a run on the two names swapped yields
  the same count, the same order of elimination, the same final letter and the same result
  category.
\<close>

theorem remaining_symmetric:
  "remaining A B = remaining B A \<and> core (submitted T e n1 n2) = core (submitted T e n2 n1)"
proof -
  have r: "remaining (sanitize T n1) (sanitize T n2) = remaining (sanitize T n2) (sanitize T n1)"
    by (rule remaining_commute)
  have d: "(sanitize T n1 = [] \<or> sanitize T n2 = []) = (sanitize T n2 = [] \<or> sanitize T n1 = [])"
    by auto
  have "core (submitted T e n1 n2) = core (submitted T e n2 n1)"
    unfolding core_submitted r d ..
  with remaining_commute [of A B] show ?thesis by simp
qed

theorem remaining_symmetric_witness:
  "remaining ''steve'' ''eva'' = 4 \<and> remaining ''eva'' ''steve'' = 4 \<and>
   core (submitted no_tables \<lparr>display = (), now = ''''\<rparr> (py_str ''steve'') (py_str ''eva'')) =
     Inr (4, ''MLFAS'', CHR ''E'', ''Enemies'') \<and>
   core (submitted no_tables \<lparr>display = (), now = ''''\<rparr> (py_str ''eva'') (py_str ''steve'')) =
     Inr (4, ''MLFAS'', CHR ''E'', ''Enemies'')"
proof -
  let ?e = "\<lparr>display = (), now = ''''\<rparr>"
  have r: "remaining ''steve'' ''eva'' = 4" by code_simp
  have c: "core (submitted no_tables ?e (py_str ''steve'') (py_str ''eva'')) =
             Inr (4, ''MLFAS'', CHR ''E'', ''Enemies'')"
    by code_simp
  note t = remaining_symmetric [of "''steve''" "''eva''" no_tables ?e "py_str ''steve''" "py_str ''eva''"]
  from t r have r': "remaining ''eva'' ''steve'' = 4" by simp
  from t c have c': "core (submitted no_tables ?e (py_str ''eva'') (py_str ''steve'')) =
             Inr (4, ''MLFAS'', CHR ''E'', ''Enemies'')"
    by simp
  from r r' c c' show ?thesis
    by (intro conjI)
qed

end
